theory Spec2Isabelle
  imports
    Main
    "HOL-Library.AList"
    "HOL-Library.Multiset"
    "HOL-Library.Char_ord"
    "HOL-Library.List_Lexorder"
    "HOL-Library.Word"
begin

section \<open>The task planner of scheduler/planner.go\<close>

text \<open>
  A shallow embedding of \<^verbatim>\<open>src/scheduler/planner.go\<close>. Go maps are association lists with
  distinct keys; \<^verbatim>\<open>*Unit\<close> pointers are indices into a heap of units, so that a unit
  registered under several cache keys is one shared object. Go's \<^verbatim>\<open>int64\<close> and
  \<^verbatim>\<open>time.Duration\<close> are integers with the two's complement wrap-around written out.
  A run-time panic is a value of type \<open>panic\<close>.
\<close>

subsection \<open>64-bit signed arithmetic\<close>

definition wrap64 :: "int \<Rightarrow> int" where
  "wrap64 x = (x + 2 ^ 63) mod 2 ^ 64 - 2 ^ 63"

definition add64 :: "int \<Rightarrow> int \<Rightarrow> int" where
  "add64 a b = wrap64 (a + b)"

definition sub64 :: "int \<Rightarrow> int \<Rightarrow> int" where
  "sub64 a b = wrap64 (a - b)"

definition mul64 :: "int \<Rightarrow> int \<Rightarrow> int" where
  "mul64 a b = wrap64 (a * b)"

text \<open>Go's \<^verbatim>\<open>/\<close> truncates towards zero; the caller checks the divisor, as a zero divisor
  panics.\<close>

definition quo :: "int \<Rightarrow> int \<Rightarrow> int" where
  "quo a b = sgn a * sgn b * (\<bar>a\<bar> div \<bar>b\<bar>)"

definition quo64 :: "int \<Rightarrow> int \<Rightarrow> int" where
  "quo64 a b = wrap64 (quo a b)"


text \<open>\<^verbatim>\<open>time.Duration\<close> counts nanoseconds.\<close>

definition Minute :: int where
  "Minute = 60 * 1000000000"

definition Hour :: int where
  "Hour = 60 * Minute"

text \<open>
  \<^verbatim>\<open>int64(math.Floor(d.Minutes() / float64(length)))\<close>. The float64 arithmetic is modelled
  by its exact value: the floor of \<open>d / (Minute * length)\<close>; float64 rounding is not
  modelled.
\<close>

definition floorMinutesPer :: "int \<Rightarrow> int \<Rightarrow> int" where
  "floorMinutesPer d n = d div (Minute * n)"

text \<open>\<^verbatim>\<open>int64(d.Hours())\<close>: the exact number of hours, truncated towards zero by the
  conversion.\<close>

definition truncHours :: "int \<Rightarrow> int" where
  "truncHours d = quo d Hour"

subsection \<open>Tasks, distros and what the planner takes from other packages\<close>

datatype panic = NilPointerDereference | IntegerDivideByZero

record Task =
  task_Id :: string
  Version :: string
  TaskGroup :: string
  TaskGroupOrder :: int
  Priority :: int
  NumDependents :: int
  DependsOn :: "string list" \<comment> \<open>the \<^verbatim>\<open>TaskId\<close> of each dependency\<close>
  Requester :: string
  GenerateTask :: bool
  ActivatedBy :: string
  ActivatedTime :: int \<comment> \<open>nanoseconds since the zero \<^verbatim>\<open>time.Time\<close>; 0 is \<^verbatim>\<open>IsZero\<close>\<close>
  IngestTime :: int

text \<open>The getters of \<^verbatim>\<open>distro.PlannerSettings\<close> are not part of the sources: a field holds
  what each getter returns.\<close>

record PlannerSettings =
  ShouldGroupVersions :: bool
  GetGenerateTaskFactor :: int
  GetPatchFactor :: int
  GetPatchTimeInQueueFactor :: int
  GetCommitQueueFactor :: int
  GetMainlineTimeInQueueFactor :: int
  GetStepbackTaskFactor :: int
  GetExpectedRuntimeFactor :: int

record Distro =
  PlannerSettings :: PlannerSettings

text \<open>
  What \<^verbatim>\<open>planner.go\<close> calls and the sources do not hold, taken as parameters: the hex
  digest \<^verbatim>\<open>fmt.Sprintf("%x", sha1(..))\<close>, the requester predicates and the stepback
  constant of package \<^verbatim>\<open>evergreen\<close>, two methods of \<^verbatim>\<open>task.Task\<close>, the clock read by
  \<^verbatim>\<open>time.Since\<close> (one instant for a whole run), and the order in which a \<^verbatim>\<open>range\<close> loop
  visits the entries of a map, which Go leaves unspecified: \<open>rangeTasks\<close> and
  \<open>rangeCache\<close> return the entries of a map in the order of the visit.
\<close>

record extern =
  sha1_hex :: "string \<Rightarrow> string"
  IsCommitQueueRequester :: "string \<Rightarrow> bool"
  IsGithubMergeQueueRequester :: "string \<Rightarrow> bool"
  IsPatchRequester :: "string \<Rightarrow> bool"
  StepbackTaskActivator :: string
  GetTaskGroupString :: "Task \<Rightarrow> string"
  FetchExpectedDuration_Average :: "Task \<Rightarrow> int"
  now :: int
  rangeTasks :: "(string \<times> Task) list \<Rightarrow> (string \<times> Task) list"
  rangeCache :: "(string \<times> nat) list \<Rightarrow> (string \<times> nat) list"

text \<open>A \<^verbatim>\<open>range\<close> loop visits every entry of the map once.\<close>

definition range_visits_all :: "extern \<Rightarrow> bool" where
  "range_visits_all E \<longleftrightarrow>
     (\<forall>m. mset (rangeTasks E m) = mset m) \<and> (\<forall>c. mset (rangeCache E c) = mset c)"

text \<open>\<^verbatim>\<open>time.Since(t)\<close>: \<^verbatim>\<open>Time.Sub\<close> saturates at the ends of \<^verbatim>\<open>Duration\<close>.\<close>

definition Since :: "extern \<Rightarrow> int \<Rightarrow> int" where
  "Since E t = max (- (2 ^ 63)) (min (2 ^ 63 - 1) (now E - t))"

subsection \<open>Unit\<close>

record Unit =
  tasks :: "(string \<times> Task) list"
  cachedValue :: int
  unit_id :: string
  distro :: "Distro option"

definition MakeUnit :: "Distro option \<Rightarrow> Unit" where
  "MakeUnit d = \<lparr>tasks = [], cachedValue = 0, unit_id = [], distro = d\<rparr>"

text \<open>\<^verbatim>\<open>unit.tasks[t.Id] = t\<close>\<close>

definition Add :: "Unit \<Rightarrow> Task \<Rightarrow> Unit" where
  "Add unit t = unit\<lparr>tasks := AList.update (task_Id t) t (tasks unit)\<rparr>"

definition NewUnit :: "Task \<Rightarrow> Unit" where
  "NewUnit t = Add (MakeUnit None) t"

definition Unit_Export :: "extern \<Rightarrow> Unit \<Rightarrow> Task list" where
  "Unit_Export E unit = map snd (rangeTasks E (tasks unit))"

text \<open>\<^verbatim>\<open>SetDistro\<close> ignores a nil distro. (The receiver is never nil here: a unit is
  reached through its address.)\<close>

definition SetDistro :: "Unit \<Rightarrow> Distro option \<Rightarrow> Unit" where
  "SetDistro unit d = (case d of None \<Rightarrow> unit | Some _ \<Rightarrow> unit\<lparr>distro := d\<rparr>)"

definition Keys :: "extern \<Rightarrow> Unit \<Rightarrow> string list" where
  "Keys E unit = map fst (rangeTasks E (tasks unit))"

text \<open>\<^verbatim>\<open>ID\<close> returns the memoized id, or hashes the concatenation of the sorted task ids
  and stores the digest in the unit.\<close>

definition ID :: "extern \<Rightarrow> Unit \<Rightarrow> string \<times> Unit" where
  "ID E unit =
     (if unit_id unit \<noteq> [] then (unit_id unit, unit)
      else
        let ids = sort (map fst (rangeTasks E (tasks unit)));
            h = sha1_hex E (concat ids)
        in (h, unit\<lparr>unit_id := h\<rparr>))"

subsection \<open>Scoring\<close>

record unitInfo =
  TaskIDs :: "string list"
  Settings :: PlannerSettings
  ExpectedRuntime :: int
  TimeInQueue :: int
  TotalPriority :: int
  NumDeps :: int
  ContainsInCommitQueue :: bool
  ContainsInPatch :: bool
  ContainsNonGroupTasks :: bool
  ContainsGenerateTask :: bool
  ContainsStepbackTask :: bool

text \<open>The three branches of the provenance \<^verbatim>\<open>if\<close> of \<^verbatim>\<open>unitInfo.value\<close>; each takes the number of
  tasks and the priority so far and returns the priority and the value after it.\<close>

definition patchBranch :: "unitInfo \<Rightarrow> int \<Rightarrow> int \<Rightarrow> int \<times> int" where
  "patchBranch u len priority =
     (let v = add64 0 (mul64 priority (GetPatchFactor (Settings u)));
          v = add64 v (mul64 (mul64 priority (GetPatchTimeInQueueFactor (Settings u)))
                 (floorMinutesPer (TimeInQueue u) len))
      in (priority, v))"

definition commitQueueBranch :: "unitInfo \<Rightarrow> int \<Rightarrow> int \<Rightarrow> int \<times> int" where
  "commitQueueBranch u len priority =
     (let priority = add64 priority 200;
          v = add64 0 (mul64 priority (GetCommitQueueFactor (Settings u)))
      in (priority, v))"

definition mainlineBranch :: "unitInfo \<Rightarrow> int \<Rightarrow> int \<Rightarrow> int \<times> int" where
  "mainlineBranch u len priority =
     (let avgLifeTime = quo64 (TimeInQueue u) len;
          mainlinePriority =
            (if avgLifeTime < 7 * 24 * Hour
             then add64 0 (mul64 (GetMainlineTimeInQueueFactor (Settings u))
                    (truncHours (sub64 (7 * 24 * Hour) avgLifeTime)))
             else 0);
          mainlinePriority =
            (if ContainsStepbackTask u
             then add64 mainlinePriority (GetStepbackTaskFactor (Settings u))
             else mainlinePriority)
      in (priority, add64 0 (mul64 priority mainlinePriority)))"

text \<open>\<^verbatim>\<open>unitInfo.value\<close>. With no task the first division panics.\<close>

definition unitInfo_value :: "unitInfo \<Rightarrow> panic + int" where
  "unitInfo_value u =
     (let len = int (length (TaskIDs u)) in
      if len = 0 then Inl IntegerDivideByZero
      else
        let priority = add64 1 (quo64 (TotalPriority u) len);
            priority = (if \<not> ContainsNonGroupTasks u then add64 priority len else priority);
            priority =
              (if ContainsGenerateTask u
               then mul64 priority (GetGenerateTaskFactor (Settings u)) else priority);
            (priority, v) =
              (if ContainsInPatch u then patchBranch u len priority
               else if ContainsInCommitQueue u then commitQueueBranch u len priority
               else mainlineBranch u len priority);
            v = add64 v len;
            v = add64 v priority;
            v = add64 v (mul64 priority (quo64 (NumDeps u) len));
            v = add64 v (mul64 (mul64 priority (GetExpectedRuntimeFactor (Settings u)))
                   (floorMinutesPer (ExpectedRuntime u) len))
        in Inr v)"

text \<open>One iteration of the loop of \<^verbatim>\<open>info\<close>.\<close>

definition info_step :: "extern \<Rightarrow> unitInfo \<Rightarrow> Task \<Rightarrow> unitInfo" where
  "info_step E info t =
     (let info =
            (if IsCommitQueueRequester E (Requester t) \<or> IsGithubMergeQueueRequester E (Requester t)
             then info\<lparr>ContainsInCommitQueue := True\<rparr>
             else if IsPatchRequester E (Requester t) then info\<lparr>ContainsInPatch := True\<rparr>
             else info);
          info = info\<lparr>ContainsNonGroupTasks := ContainsNonGroupTasks info \<or> TaskGroup t = []\<rparr>;
          info = info\<lparr>ContainsGenerateTask := ContainsGenerateTask info \<or> GenerateTask t\<rparr>;
          info = info\<lparr>ContainsStepbackTask :=
                   ContainsStepbackTask info \<or> ActivatedBy t = StepbackTaskActivator E\<rparr>;
          info =
            (if ActivatedTime t \<noteq> 0
             then info\<lparr>TimeInQueue := add64 (TimeInQueue info) (Since E (ActivatedTime t))\<rparr>
             else if IngestTime t \<noteq> 0
             then info\<lparr>TimeInQueue := add64 (TimeInQueue info) (Since E (IngestTime t))\<rparr>
             else info);
          info = info\<lparr>TotalPriority := add64 (TotalPriority info) (Priority t)\<rparr>;
          info = info\<lparr>ExpectedRuntime :=
                   add64 (ExpectedRuntime info) (FetchExpectedDuration_Average E t)\<rparr>;
          info = info\<lparr>NumDeps := add64 (NumDeps info) (NumDependents t)\<rparr>
      in info\<lparr>TaskIDs := TaskIDs info @ [task_Id t]\<rparr>)"

definition info_init :: "PlannerSettings \<Rightarrow> unitInfo" where
  "info_init s =
     \<lparr>TaskIDs = [], Settings = s, ExpectedRuntime = 0, TimeInQueue = 0, TotalPriority = 0,
      NumDeps = 0, ContainsInCommitQueue = False, ContainsInPatch = False,
      ContainsNonGroupTasks = False, ContainsGenerateTask = False,
      ContainsStepbackTask = False\<rparr>"

text \<open>\<^verbatim>\<open>unit.distro.PlannerSettings\<close> panics on a nil distro.\<close>

definition info :: "extern \<Rightarrow> Unit \<Rightarrow> panic + unitInfo" where
  "info E unit =
     (case distro unit of
        None \<Rightarrow> Inl NilPointerDereference
      | Some d \<Rightarrow>
          Inr (foldl (info_step E) (info_init (PlannerSettings d))
                 (map snd (rangeTasks E (tasks unit)))))"

text \<open>\<^verbatim>\<open>RankValue\<close> returns the rank and the unit with the rank memoized.\<close>

definition RankValue :: "extern \<Rightarrow> Unit \<Rightarrow> panic + (int \<times> Unit)" where
  "RankValue E unit =
     (if cachedValue unit > 0 then Inr (cachedValue unit, unit)
      else
        case info E unit of
          Inl p \<Rightarrow> Inl p
        | Inr i \<Rightarrow>
            (case unitInfo_value i of
               Inl p \<Rightarrow> Inl p
             | Inr v \<Rightarrow> Inr (v, unit\<lparr>cachedValue := v\<rparr>)))"

subsection \<open>StringSet, TaskList and sorting\<close>

text \<open>\<^verbatim>\<open>Visit\<close> tells whether the string was in the set, and adds it.\<close>

definition Visit :: "string set \<Rightarrow> string \<Rightarrow> bool \<times> string set" where
  "Visit s x = (if x \<in> s then (True, s) else (False, insert x s))"

definition TaskList_Less :: "extern \<Rightarrow> Task \<Rightarrow> Task \<Rightarrow> bool" where
  "TaskList_Less E t1 t2 =
     (if TaskGroupOrder t1 \<noteq> TaskGroupOrder t2 then TaskGroupOrder t1 < TaskGroupOrder t2
      else if NumDependents t1 \<noteq> NumDependents t2 then NumDependents t1 > NumDependents t2
      else if Priority t1 \<noteq> Priority t2 then Priority t1 > Priority t2
      else FetchExpectedDuration_Average E t1 > FetchExpectedDuration_Average E t2)"

text \<open>
  \<^verbatim>\<open>sort.Sort\<close> is not stable: elements that compare equal end in an order the library
  chooses. Here it is an insertion sort that keeps the order of equal elements, applied
  to a slice whose order comes from a \<^verbatim>\<open>range\<close> over a map, that is from \<open>rangeTasks\<close> or
  \<open>rangeCache\<close>: every order \<^verbatim>\<open>sort.Sort\<close> can return is the result for one of these.
\<close>

fun insert_less :: "('a \<Rightarrow> 'a \<Rightarrow> bool) \<Rightarrow> 'a \<Rightarrow> 'a list \<Rightarrow> 'a list" where
  "insert_less lt x [] = [x]"
| "insert_less lt x (y # ys) =
     (if lt y x then y # insert_less lt x ys else x # y # ys)"

definition sort_Sort :: "('a \<Rightarrow> 'a \<Rightarrow> bool) \<Rightarrow> 'a list \<Rightarrow> 'a list" where
  "sort_Sort lt xs = foldr (insert_less lt) xs []"

subsection \<open>UnitCache\<close>

text \<open>A \<^verbatim>\<open>*Unit\<close> is the index of the unit in the heap; the cache maps keys to indices.\<close>

type_synonym heap = "Unit list"
type_synonym UnitCache = "(string \<times> nat) list"
type_synonym state = "heap \<times> UnitCache"

definition Add_at :: "heap \<Rightarrow> nat \<Rightarrow> Task \<Rightarrow> heap" where
  "Add_at h a t = h[a := Add (h ! a) t]"

definition SetDistro_at :: "heap \<Rightarrow> nat \<Rightarrow> Distro option \<Rightarrow> heap" where
  "SetDistro_at h a d = h[a := SetDistro (h ! a) d]"

definition Exists :: "UnitCache \<Rightarrow> string \<Rightarrow> bool" where
  "Exists cache key = (map_of cache key \<noteq> None)"

definition AddNew :: "extern \<Rightarrow> string \<Rightarrow> nat \<Rightarrow> state \<Rightarrow> state" where
  "AddNew E key unit s =
     (case s of (h, cache) \<Rightarrow>
        (case map_of cache key of
           Some existing \<Rightarrow>
             (foldl (\<lambda>h t. Add_at h existing t) h (map snd (rangeTasks E (tasks (h ! unit)))),
              cache)
         | None \<Rightarrow> (h, cache @ [(key, unit)])))"

definition Create :: "extern \<Rightarrow> string \<Rightarrow> Task \<Rightarrow> state \<Rightarrow> state \<times> nat" where
  "Create E key t s =
     (case s of (h, cache) \<Rightarrow>
        (case map_of cache key of
           Some unit \<Rightarrow> ((Add_at h unit t, cache), unit)
         | None \<Rightarrow>
             let unit = length h;
                 h = h @ [NewUnit t]
             in (AddNew E key unit (h, cache), unit)))"

definition AddWhen :: "extern \<Rightarrow> bool \<Rightarrow> string \<Rightarrow> Task \<Rightarrow> state \<Rightarrow> state" where
  "AddWhen E cond key t s =
     (if \<not> cond then s
      else
        case s of (h, cache) \<Rightarrow>
          (case map_of cache key of
             Some existing \<Rightarrow> (Add_at h existing t, cache)
           | None \<Rightarrow> fst (Create E key t s)))"

text \<open>The loop of \<^verbatim>\<open>UnitCache.Export\<close> over the entries in the order of the visit. The id
  is marked as seen before the distro is looked at.\<close>

fun Export_loop ::
  "extern \<Rightarrow> (string \<times> nat) list \<Rightarrow> heap \<Rightarrow> string set \<Rightarrow> nat list \<Rightarrow> heap \<times> nat list" where
  "Export_loop E [] h seen tpl = (h, tpl)"
| "Export_loop E ((key, a) # rest) h seen tpl =
     (let (uid, u) = ID E (h ! a);
          h = h[a := u];
          (was_seen, seen) = Visit seen uid
      in if was_seen then Export_loop E rest h seen tpl
         else if distro (h ! a) = None then Export_loop E rest h seen tpl
         else Export_loop E rest h seen (tpl @ [a]))"

text \<open>A \<^verbatim>\<open>TaskPlan\<close> is a slice of pointers: the heap and the addresses.\<close>

type_synonym TaskPlan = "heap \<times> nat list"

definition UnitCache_Export :: "extern \<Rightarrow> state \<Rightarrow> TaskPlan" where
  "UnitCache_Export E s = (case s of (h, cache) \<Rightarrow> Export_loop E (rangeCache E cache) h {} [])"

subsection \<open>PrepareTasksForPlanning\<close>

text \<open>The body of the first loop, for a distro that is not nil.\<close>

definition group_step :: "extern \<Rightarrow> Distro \<Rightarrow> state \<Rightarrow> Task \<Rightarrow> state" where
  "group_step E d s t =
     (if TaskGroup t \<noteq> [] then
        let (s, unit) = Create E (GetTaskGroupString E t) t s;
            s = AddNew E (task_Id t) unit s;
            s = AddWhen E (ShouldGroupVersions (PlannerSettings d)) (Version t) t s
        in (SetDistro_at (fst s) unit (Some d), snd s)
      else if ShouldGroupVersions (PlannerSettings d) then
        let (s, unit) = Create E (Version t) t s;
            s = AddNew E (task_Id t) unit s
        in (SetDistro_at (fst s) unit (Some d), snd s)
      else
        let (s, unit) = Create E (task_Id t) t s
        in (SetDistro_at (fst s) unit (Some d), snd s))"

text \<open>The body of the second loop.\<close>

definition dep_step :: "extern \<Rightarrow> Task \<Rightarrow> state \<Rightarrow> string \<Rightarrow> state" where
  "dep_step E t s dep = AddWhen E (Exists (snd s) dep) dep t s"

definition depends_step :: "extern \<Rightarrow> state \<Rightarrow> Task \<Rightarrow> state" where
  "depends_step E s t = foldl (dep_step E t) s (DependsOn t)"

text \<open>The cache after the first loop, and after both.\<close>

definition group_pass :: "extern \<Rightarrow> Distro \<Rightarrow> Task list \<Rightarrow> state" where
  "group_pass E d ts = foldl (group_step E d) ([], []) ts"

definition assemble :: "extern \<Rightarrow> Distro \<Rightarrow> Task list \<Rightarrow> state" where
  "assemble E d ts = foldl (depends_step E) (group_pass E d ts) ts"

text \<open>With a nil distro the first iteration panics at \<^verbatim>\<open>distro.PlannerSettings\<close>; the cache
  is local, so nothing of it is seen.\<close>

definition PrepareTasksForPlanning :: "extern \<Rightarrow> Distro option \<Rightarrow> Task list \<Rightarrow> panic + TaskPlan" where
  "PrepareTasksForPlanning E dist ts =
     (case dist of
        None \<Rightarrow> if ts = [] then Inr (UnitCache_Export E ([], [])) else Inl NilPointerDereference
      | Some d \<Rightarrow> Inr (UnitCache_Export E (assemble E d ts)))"

subsection \<open>TaskPlan\<close>

text \<open>\<^verbatim>\<open>sort.Sort(tpl)\<close> calls \<^verbatim>\<open>Less\<close>, and so \<^verbatim>\<open>RankValue\<close> on every unit, when the plan has
  two units or more.\<close>

fun rank_all :: "extern \<Rightarrow> heap \<Rightarrow> nat list \<Rightarrow> panic + heap" where
  "rank_all E h [] = Inr h"
| "rank_all E h (a # as) =
     (case RankValue E (h ! a) of
        Inl p \<Rightarrow> Inl p
      | Inr (v, u) \<Rightarrow> rank_all E (h[a := u]) as)"

definition rank_of :: "extern \<Rightarrow> heap \<Rightarrow> nat \<Rightarrow> int" where
  "rank_of E h a = (case RankValue E (h ! a) of Inl p \<Rightarrow> 0 | Inr (v, u) \<Rightarrow> v)"

definition TaskPlan_Less :: "extern \<Rightarrow> heap \<Rightarrow> nat \<Rightarrow> nat \<Rightarrow> bool" where
  "TaskPlan_Less E h a b = (rank_of E h a > rank_of E h b)"

definition emit :: "string set \<times> Task list \<Rightarrow> Task \<Rightarrow> string set \<times> Task list" where
  "emit acc t =
     (case acc of (seen, output) \<Rightarrow>
        (let (was_seen, seen) = Visit seen (task_Id t)
         in if was_seen then (seen, output) else (seen, output @ [t])))"

definition emit_unit :: "extern \<Rightarrow> heap \<Rightarrow> string set \<times> Task list \<Rightarrow> nat \<Rightarrow> string set \<times> Task list" where
  "emit_unit E h acc a =
     foldl emit acc (sort_Sort (TaskList_Less E) (Unit_Export E (h ! a)))"

definition TaskPlan_Export :: "extern \<Rightarrow> TaskPlan \<Rightarrow> panic + Task list" where
  "TaskPlan_Export E p =
     (case p of (h, tpl) \<Rightarrow>
        (case (if length tpl < 2 then Inr h else rank_all E h tpl) of
           Inl e \<Rightarrow> Inl e
         | Inr h \<Rightarrow>
             Inr (snd (foldl (emit_unit E h) ({}, []) (sort_Sort (TaskPlan_Less E h) tpl)))))"

text \<open>The whole pipeline: \<^verbatim>\<open>PrepareTasksForPlanning(distro, tasks).Export()\<close>.\<close>

definition plan :: "extern \<Rightarrow> Distro option \<Rightarrow> Task list \<Rightarrow> panic + Task list" where
  "plan E dist ts =
     (case PrepareTasksForPlanning E dist ts of
        Inl e \<Rightarrow> Inl e
      | Inr p \<Rightarrow> TaskPlan_Export E p)"

subsection \<open>The score with one provenance branch\<close>




subsection \<open>Invariants of the cache\<close>

text \<open>The task ids of a unit.\<close>

definition keys :: "Unit \<Rightarrow> string set" where
  "keys u = fst ` set (tasks u)"

text \<open>A unit of the cache holds at least one task, each under its own id, and only tasks of the batch \<open>T\<close>.\<close>

definition unit_ok :: "Task set \<Rightarrow> Unit \<Rightarrow> bool" where
  "unit_ok T u \<longleftrightarrow> tasks u \<noteq> [] \<and> (\<forall>p \<in> set (tasks u). fst p = task_Id (snd p) \<and> snd p \<in> T)"

text \<open>Every address in the cache is an address of the heap.\<close>

definition wf_cache :: "state \<Rightarrow> bool" where
  "wf_cache s \<longleftrightarrow> (\<forall>k a. map_of (snd s) k = Some a \<longrightarrow> a < length (fst s))"

text \<open>The invariant of the cache during the two loops.\<close>

definition cache_inv :: "Task set \<Rightarrow> state \<Rightarrow> bool" where
  "cache_inv T s \<longleftrightarrow> wf_cache s \<and> (\<forall>u \<in> set (fst s). unit_ok T u)"

text \<open>From one state to a later one: no unit is removed from the heap, no task leaves a unit, and no key of the cache changes its unit.\<close>

definition extends :: "state \<Rightarrow> state \<Rightarrow> bool" where
  "extends s s' \<longleftrightarrow>
     length (fst s) \<le> length (fst s') \<and>
     (\<forall>a < length (fst s). keys (fst s ! a) \<subseteq> keys (fst s' ! a)) \<and>
     (\<forall>k a. map_of (snd s) k = Some a \<longrightarrow> map_of (snd s') k = Some a)"

text \<open>The task is in the unit registered under its id.\<close>

definition covered :: "state \<Rightarrow> Task \<Rightarrow> bool" where
  "covered s t \<longleftrightarrow>
     (\<exists>a. map_of (snd s) (task_Id t) = Some a \<and> a < length (fst s) \<and>
          task_Id t \<in> keys (fst s ! a))"

text \<open>Every unit of the heap has the distro \<open>d\<close>.\<close>

definition all_distro :: "Distro \<Rightarrow> heap \<Rightarrow> bool" where
  "all_distro d h \<longleftrightarrow> (\<forall>u \<in> set h. distro u = Some d)"

text \<open>The key under which the first loop calls \<^verbatim>\<open>Create\<close> for a task.\<close>

definition primary_key :: "extern \<Rightarrow> Distro \<Rightarrow> Task \<Rightarrow> string" where
  "primary_key E d t =
     (if TaskGroup t \<noteq> [] then GetTaskGroupString E t
      else if ShouldGroupVersions (PlannerSettings d) then Version t
      else task_Id t)"

text \<open>The first loop registers the unit of the task under the id of the task as well.\<close>

definition aliased :: "Distro \<Rightarrow> Task \<Rightarrow> bool" where
  "aliased d t \<longleftrightarrow> TaskGroup t \<noteq> [] \<or> ShouldGroupVersions (PlannerSettings d)"

text \<open>No task reaches \<^verbatim>\<open>AddWhen\<close> with version grouping on.\<close>

definition no_version_unit :: "Distro \<Rightarrow> Task list \<Rightarrow> bool" where
  "no_version_unit d ts \<longleftrightarrow>
     (ShouldGroupVersions (PlannerSettings d) \<longrightarrow> (\<forall>t \<in> set ts. TaskGroup t = []))"

text \<open>No two units of the heap share a task id.\<close>

definition disjoint_units :: "heap \<Rightarrow> bool" where
  "disjoint_units h \<longleftrightarrow>
     (\<forall>a b. a < length h \<longrightarrow> b < length h \<longrightarrow> a \<noteq> b \<longrightarrow> keys (h ! a) \<inter> keys (h ! b) = {})"

text \<open>The invariant of the first loop when no key collides: \<open>ids\<close> are the ids of the batch, \<open>P\<close> the ids of the tasks seen so far.\<close>

definition disj_inv :: "string set \<Rightarrow> string set \<Rightarrow> state \<Rightarrow> bool" where
  "disj_inv ids P s \<longleftrightarrow>
     wf_cache s \<and> (\<forall>a < length (fst s). keys (fst s ! a) \<subseteq> P) \<and> disjoint_units (fst s) \<and>
     (\<forall>k a. map_of (snd s) k = Some a \<longrightarrow> k \<in> P \<or> k \<notin> ids)"

text \<open>Two heaps hold the same units up to the memoized id and rank: \<^verbatim>\<open>UnitCache.Export\<close> changes a heap in this way only.\<close>

definition same_units :: "extern \<Rightarrow> heap \<Rightarrow> heap \<Rightarrow> bool" where
  "same_units E h h' \<longleftrightarrow>
     length h' = length h \<and>
     (\<forall>a < length h. tasks (h' ! a) = tasks (h ! a) \<and> distro (h' ! a) = distro (h ! a) \<and>
        fst (ID E (h' ! a)) = fst (ID E (h ! a)))"

text \<open>Two heaps hold units with the same tasks and distros.\<close>

definition same_tasks :: "heap \<Rightarrow> heap \<Rightarrow> bool" where
  "same_tasks h h' \<longleftrightarrow>
     length h' = length h \<and>
     (\<forall>a < length h. tasks (h' ! a) = tasks (h ! a) \<and> distro (h' ! a) = distro (h ! a))"





subsection \<open>Example inputs\<close>

text \<open>An environment with the requester names of Evergreen, a clock at 0, tasks visited
  in the order of insertion, and the given digest and order of visit of the cache.\<close>

definition ex_extern ::
  "(string \<Rightarrow> string) \<Rightarrow> ((string \<times> nat) list \<Rightarrow> (string \<times> nat) list) \<Rightarrow> extern" where
  "ex_extern H ord =
     \<lparr>sha1_hex = H,
      IsCommitQueueRequester = (\<lambda>r. r = ''merge_test''),
      IsGithubMergeQueueRequester = (\<lambda>r. r = ''github_merge_request''),
      IsPatchRequester = (\<lambda>r. r = ''patch_request'' \<or> r = ''merge_test''),
      StepbackTaskActivator = ''stepback'',
      GetTaskGroupString = (\<lambda>t. TaskGroup t @ ''_'' @ Version t),
      FetchExpectedDuration_Average = (\<lambda>t. 0),
      now = 0,
      rangeTasks = (\<lambda>m. m),
      rangeCache = ord\<rparr>"

text \<open>A task with the given id, task group, version and dependencies.\<close>

definition ex_task :: "string \<Rightarrow> string \<Rightarrow> string \<Rightarrow> string list \<Rightarrow> Task" where
  "ex_task i g v deps =
     \<lparr>task_Id = i, Version = v, TaskGroup = g, TaskGroupOrder = 0, Priority = 0,
      NumDependents = 0, DependsOn = deps, Requester = [], GenerateTask = False,
      ActivatedBy = [], ActivatedTime = 0, IngestTime = 0\<rparr>"

text \<open>A distro with the given version grouping and all factors equal.\<close>

definition ex_distro :: "bool \<Rightarrow> int \<Rightarrow> Distro" where
  "ex_distro gv f =
     \<lparr>PlannerSettings =
        \<lparr>ShouldGroupVersions = gv, GetGenerateTaskFactor = f, GetPatchFactor = f,
         GetPatchTimeInQueueFactor = f, GetCommitQueueFactor = f,
         GetMainlineTimeInQueueFactor = f, GetStepbackTaskFactor = f,
         GetExpectedRuntimeFactor = f\<rparr>\<rparr>"



section \<open>Properties\<close>

subsection \<open>Evaluation of the examples\<close>

lemmas plan_defs =
  plan_def PrepareTasksForPlanning_def assemble_def group_pass_def group_step_def depends_step_def
  dep_step_def Create_def AddNew_def AddWhen_def Add_at_def SetDistro_at_def SetDistro_def
  NewUnit_def MakeUnit_def Add_def Exists_def UnitCache_Export_def ID_def Visit_def
  TaskPlan_Export_def emit_unit_def emit_def sort_Sort_def Unit_Export_def
  ex_extern_def ex_task_def ex_distro_def Let_def

lemma range_visits_all_ex: "range_visits_all (ex_extern H (\<lambda>c. c))"
  by (simp add: range_visits_all_def ex_extern_def)

lemma range_visits_all_ex_rev: "range_visits_all (ex_extern H rev)"
  by (simp add: range_visits_all_def ex_extern_def)

subsection \<open>Units\<close>

lemma keys_foldl_Add:
  "fst ` set (tasks (foldl Add u ts)) = fst ` set (tasks u) \<union> task_Id ` set ts"
  by (induction ts arbitrary: u) (auto simp: Add_def dom_update)

lemma distinct_foldl_Add:
  "distinct (map fst (tasks u)) \<Longrightarrow> distinct (map fst (tasks (foldl Add u ts)))"
  by (induction ts arbitrary: u) (auto simp: Add_def distinct_update)

lemma unit_id_foldl_Add: "unit_id (foldl Add u ts) = unit_id u"
  by (induction ts arbitrary: u) (auto simp: Add_def)

lemma sort_range_keys:
  assumes "mset m' = mset m" "distinct (map fst m)"
  shows "sort (map fst m') = sorted_list_of_set (fst ` set m)"
proof -
  have "mset (map fst m') = mset (map fst m)"
    using assms(1) by (metis mset_map)
  then have "sort (map fst m') = sort (map fst m)"
    by (metis properties_for_sort sorted_sort mset_sort)
  also have "\<dots> = sorted_list_of_set (set (map fst m))"
    using assms(2) by (metis distinct_remdups_id sorted_list_of_set_sort_remdups)
  finally show ?thesis by simp
qed

lemma ID_fresh:
  assumes "range_visits_all E" "distinct (map fst (tasks u))" "unit_id u = []"
  shows "fst (ID E u) = sha1_hex E (concat (sorted_list_of_set (fst ` set (tasks u))))"
  using assms sort_range_keys[of "rangeTasks E (tasks u)" "tasks u"]
  by (simp add: ID_def Let_def range_visits_all_def)

text \<open>
  C7. A unit built from an empty unit by adding tasks has as \<^verbatim>\<open>ID()\<close> the hex digest of
  the concatenation of its task ids in lexicographic order, and two units built from
  task lists with the same set of ids, in any orders, have the same \<^verbatim>\<open>ID()\<close>.
\<close>

theorem ID_insertion_order:
  assumes "range_visits_all E" "task_Id ` set ts1 = task_Id ` set ts2"
  shows "fst (ID E (foldl Add (MakeUnit d1) ts1)) =
           sha1_hex E (concat (sorted_list_of_set (task_Id ` set ts1))) \<and>
         fst (ID E (foldl Add (MakeUnit d1) ts1)) = fst (ID E (foldl Add (MakeUnit d2) ts2))"
proof -
  have a: "fst (ID E (foldl Add (MakeUnit d) ts)) =
           sha1_hex E (concat (sorted_list_of_set (task_Id ` set ts)))" for d ts
    using ID_fresh[OF assms(1), of "foldl Add (MakeUnit d) ts"]
    by (simp add: distinct_foldl_Add unit_id_foldl_Add keys_foldl_Add MakeUnit_def)
  show ?thesis using a assms(2) by simp
qed

theorem ID_insertion_order_witness:
  "fst (ID (ex_extern (\<lambda>s. s) rev)
          (foldl Add (MakeUnit None) [ex_task ''b'' [] ''v'' [], ex_task ''a'' [] ''v'' []])) =
     fst (ID (ex_extern (\<lambda>s. s) rev)
          (foldl Add (MakeUnit (Some (ex_distro False 1)))
             [ex_task ''a'' [] ''v'' [], ex_task ''b'' [] ''v'' [], ex_task ''a'' [] ''w'' []]))"
proof -
  have "task_Id ` set [ex_task ''b'' [] ''v'' [], ex_task ''a'' [] ''v'' []] =
        task_Id ` set [ex_task ''a'' [] ''v'' [], ex_task ''b'' [] ''v'' [], ex_task ''a'' [] ''w'' []]"
    by (auto simp: ex_task_def)
  from ID_insertion_order[OF range_visits_all_ex_rev this] show ?thesis
    by blast
qed




subsection \<open>Scoring\<close>






subsection \<open>The score without overflow\<close>

lemma wrap64_sint: "wrap64 x = sint (word_of_int x :: 64 word)"
  by (simp add: wrap64_def sint_sbintrunc' signed_take_bit_eq_take_bit_shift take_bit_eq_mod)

lemma word_of_int_wrap64 [simp]: "(word_of_int (wrap64 x) :: 64 word) = word_of_int x"
  by (simp add: wrap64_sint)






















subsection \<open>Units with the same id\<close>

text \<open>
  C10. The digest is taken of the ids concatenated with no separator: the unit of the
  task \<open>ab\<close> and the unit of the tasks \<open>a\<close> and \<open>b\<close> have the same \<^verbatim>\<open>ID()\<close>, whatever the
  digest function. With \<open>ab\<close> on its own and \<open>a\<close>, \<open>b\<close> in one task group, the plan
  holds one of the two units only: when the cache is visited in one order the tasks
  \<open>a\<close> and \<open>b\<close> are missing from the exported tasks, in the other order \<open>ab\<close> is.
\<close>

theorem ID_collision_drops_unit:
  "fst (ID (ex_extern H ord) (NewUnit (ex_task ''ab'' [] ''v'' []))) =
     fst (ID (ex_extern H ord)
            (Add (NewUnit (ex_task ''a'' ''g'' ''v'' [])) (ex_task ''b'' ''g'' ''v'' []))) \<and>
   fst ` set (tasks (NewUnit (ex_task ''ab'' [] ''v'' []))) = {''ab''} \<and>
   fst ` set (tasks (Add (NewUnit (ex_task ''a'' ''g'' ''v'' [])) (ex_task ''b'' ''g'' ''v'' [])))
     = {''a'', ''b''} \<and>
   plan (ex_extern H (\<lambda>c. c)) (Some (ex_distro False 1))
     [ex_task ''ab'' [] ''v'' [], ex_task ''a'' ''g'' ''v'' [], ex_task ''b'' ''g'' ''v'' []]
     = Inr [ex_task ''ab'' [] ''v'' []] \<and>
   plan (ex_extern H rev) (Some (ex_distro False 1))
     [ex_task ''ab'' [] ''v'' [], ex_task ''a'' ''g'' ''v'' [], ex_task ''b'' ''g'' ''v'' []]
     = Inr [ex_task ''a'' ''g'' ''v'' [], ex_task ''b'' ''g'' ''v'' []]"
  by (simp add: plan_defs TaskList_Less_def)

subsection \<open>A task that the plan loses\<close>

text \<open>
  C1. With version grouping, one task \<open>t\<close> of task group \<open>g\<close> and version \<open>v\<close> is in two
  units: the unit of its task group, which gets the distro, and the unit that \<^verbatim>\<open>AddWhen\<close>
  creates for the version, which has none. Both have the same \<^verbatim>\<open>ID()\<close>. When
  \<^verbatim>\<open>UnitCache.Export\<close> visits the key \<open>v\<close> first, it marks the id as seen, skips the unit for
  its nil distro, and then skips the unit of the task group as seen: the exported plan
  is empty.
\<close>

theorem plan_loses_task:
  "plan (ex_extern H rev) (Some (ex_distro True 1)) [ex_task ''t'' ''g'' ''v'' []] = Inr []"
  by (simp add: plan_defs)

subsection \<open>The cache during the two loops\<close>

lemma set_update_subset: "set (AList.update k v al) \<subseteq> insert (k, v) (set al)"
  by (induction al) auto

lemma keys_Add [simp]: "keys (Add u t) = insert (task_Id t) (keys u)"
  by (simp add: keys_def Add_def dom_update)

lemma Add_fields [simp]:
  "distro (Add u t) = distro u" "unit_id (Add u t) = unit_id u"
  "cachedValue (Add u t) = cachedValue u" "tasks (Add u t) \<noteq> []"
  by (simp_all add: Add_def)

lemma set_tasks_Add: "set (tasks (Add u t)) \<subseteq> insert (task_Id t, t) (set (tasks u))"
  by (simp add: Add_def set_update_subset)

lemma foldl_Add_fields [simp]:
  "distro (foldl Add u ts) = distro u" "unit_id (foldl Add u ts) = unit_id u"
  "cachedValue (foldl Add u ts) = cachedValue u"
  by (induction ts arbitrary: u) simp_all

lemma keys_foldl_Add_eq [simp]: "keys (foldl Add u ts) = keys u \<union> task_Id ` set ts"
  by (induction ts arbitrary: u) auto

lemma unit_ok_Add: "unit_ok T u \<Longrightarrow> t \<in> T \<Longrightarrow> unit_ok T (Add u t)"
  using set_tasks_Add[of u t] by (fastforce simp: unit_ok_def)

lemma unit_ok_foldl_Add: "unit_ok T u \<Longrightarrow> set ts \<subseteq> T \<Longrightarrow> unit_ok T (foldl Add u ts)"
  by (induction ts arbitrary: u) (simp_all add: unit_ok_Add)

lemma unit_ok_NewUnit: "t \<in> T \<Longrightarrow> unit_ok T (NewUnit t)"
  by (simp add: unit_ok_def NewUnit_def MakeUnit_def Add_def)

lemma SetDistro_fields [simp]:
  "tasks (SetDistro u d) = tasks u" "unit_id (SetDistro u d) = unit_id u"
  "cachedValue (SetDistro u d) = cachedValue u" "keys (SetDistro u d) = keys u"
  by (simp_all add: SetDistro_def keys_def split: option.splits)

lemma unit_ok_SetDistro: "unit_ok T u \<Longrightarrow> unit_ok T (SetDistro u d)"
  by (simp add: unit_ok_def)

lemma ball_list_update: "\<forall>u \<in> set h. P u \<Longrightarrow> P v \<Longrightarrow> \<forall>u \<in> set (h[a := v]). P u"
  using set_update_subset_insert[of h a v] by blast

lemma foldl_Add_at:
  "ex < length h \<Longrightarrow> foldl (\<lambda>h t. Add_at h ex t) h ts = h[ex := foldl Add (h ! ex) ts]"
  by (induction ts arbitrary: h) (simp_all add: Add_at_def)

lemma AddNew_eq:
  assumes "wf_cache (h, c)"
  shows "AddNew E k a (h, c) =
    (case map_of c k of
       Some ex \<Rightarrow> (h[ex := foldl Add (h ! ex) (map snd (rangeTasks E (tasks (h ! a))))], c)
     | None \<Rightarrow> (h, c @ [(k, a)]))"
  using assms by (auto simp: AddNew_def wf_cache_def foldl_Add_at split: option.splits)

lemma Create_eq:
  "Create E k t (h, c) =
    (case map_of c k of
       Some a \<Rightarrow> ((h[a := Add (h ! a) t], c), a)
     | None \<Rightarrow> ((h @ [NewUnit t], c @ [(k, length h)]), length h))"
  by (auto simp: Create_def AddNew_def Add_at_def Let_def split: option.splits)

lemma AddWhen_eq:
  "AddWhen E cond k t s = (if cond then fst (Create E k t s) else s)"
  by (cases s) (auto simp: AddWhen_def Create_def Add_at_def split: option.splits)

lemma extends_refl [simp]: "extends s s"
  by (simp add: extends_def)

lemma extends_trans: "extends s s' \<Longrightarrow> extends s' s'' \<Longrightarrow> extends s s''"
  unfolding extends_def by (meson order_trans less_le_trans subset_trans)

lemma covered_extends: "covered s t \<Longrightarrow> extends s s' \<Longrightarrow> covered s' t"
  unfolding covered_def extends_def by (meson less_le_trans subsetD)

lemma range_tasks_set: "range_visits_all E \<Longrightarrow> set (rangeTasks E m) = set m"
  by (metis range_visits_all_def set_mset_mset)

lemma map_of_snoc_Some:
  "map_of (c @ [(k, a)]) k' = Some b \<Longrightarrow> map_of c k' = Some b \<or> (k' = k \<and> b = a)"
  by (cases "map_of c k'") (simp_all add: map_add_def split: if_splits)

lemma wf_cache_snoc:
  assumes "wf_cache (h, c)" "a < length h'" "length h \<le> length h'"
  shows "wf_cache (h', c @ [(k, a)])"
  unfolding wf_cache_def
proof (intro allI impI)
  fix k' b
  assume "map_of (snd (h', c @ [(k, a)])) k' = Some b"
  then have "map_of c k' = Some b \<or> (k' = k \<and> b = a)"
    using map_of_snoc_Some[of c k a k' b] by simp
  then show "b < length (fst (h', c @ [(k, a)]))"
    using assms by (fastforce simp: wf_cache_def)
qed

lemma nth_list_update': "j < length xs \<Longrightarrow> xs[i := x] ! j = (if i = j then x else xs ! j)"
  by (cases "i < length xs") (simp_all add: nth_list_update)

lemma update_unit_inv:
  assumes "cache_inv T (h, c)" "unit_ok T v" "keys (h ! a) \<subseteq> keys v"
  shows "cache_inv T (h[a := v], c)" "extends (h, c) (h[a := v], c)"
proof -
  have "\<forall>u \<in> set (h[a := v]). unit_ok T u"
    using assms(1,2) by (intro ball_list_update) (simp_all add: cache_inv_def)
  then show "cache_inv T (h[a := v], c)"
    using assms(1) by (simp add: cache_inv_def wf_cache_def)
  show "extends (h, c) (h[a := v], c)"
    using assms(3) by (auto simp: extends_def nth_list_update')
qed

lemma alias_inv:
  assumes "cache_inv T (h, c)" "a < length h" "map_of c k = None"
  shows "cache_inv T (h, c @ [(k, a)])" "extends (h, c) (h, c @ [(k, a)])"
proof -
  show "cache_inv T (h, c @ [(k, a)])"
    using assms(1,2) wf_cache_snoc[of h c a h k] by (simp add: cache_inv_def)
  show "extends (h, c) (h, c @ [(k, a)])"
    using assms(3) by (simp add: extends_def map_add_def)
qed

lemma new_inv:
  assumes "cache_inv T (h, c)" "unit_ok T v" "map_of c k = None"
  shows "cache_inv T (h @ [v], c @ [(k, length h)])"
    "extends (h, c) (h @ [v], c @ [(k, length h)])"
proof -
  show "cache_inv T (h @ [v], c @ [(k, length h)])"
    using assms(1,2) wf_cache_snoc[of h c "length h" "h @ [v]" k] by (simp add: cache_inv_def)
  show "extends (h, c) (h @ [v], c @ [(k, length h)])"
    using assms(3) by (simp add: extends_def map_add_def nth_append)
qed

lemma Create_inv_pair:
  assumes "cache_inv T (h, c)" "t \<in> T" "Create E k t (h, c) = (s', a)"
  shows "cache_inv T s' \<and> extends (h, c) s' \<and> a < length (fst s') \<and>
         map_of (snd s') k = Some a \<and> task_Id t \<in> keys (fst s' ! a)"
proof (cases "map_of c k")
  case None
  then have e: "s' = (h @ [NewUnit t], c @ [(k, length h)])" "a = length h"
    using assms(3) by (auto simp: Create_eq)
  show ?thesis
    using new_inv[OF assms(1) unit_ok_NewUnit[OF assms(2)] None] None
    by (simp add: e map_add_def NewUnit_def)
next
  case (Some b)
  then have e: "s' = (h[b := Add (h ! b) t], c)" "a = b"
    using assms(3) by (auto simp: Create_eq)
  have b: "b < length h"
    using assms(1) Some by (simp add: cache_inv_def wf_cache_def)
  have ok: "unit_ok T (Add (h ! b) t)"
    using assms(1,2) b by (simp add: cache_inv_def unit_ok_Add)
  have "keys (h ! b) \<subseteq> keys (Add (h ! b) t)"
    by auto
  from update_unit_inv[OF assms(1) ok this] show ?thesis
    using Some b by (simp add: e)
qed

lemma Create_inv:
  assumes "cache_inv T s" "t \<in> T" "Create E k t s = (s', a)"
  shows "cache_inv T s'" "extends s s'" "a < length (fst s')" "map_of (snd s') k = Some a"
    "task_Id t \<in> keys (fst s' ! a)"
  using Create_inv_pair[of T "fst s" "snd s" t E k s' a] assms by simp_all

lemma AddNew_inv_pair:
  assumes "cache_inv T (h, c)" "a < length h" "range_visits_all E"
  shows "cache_inv T (AddNew E k a (h, c)) \<and> extends (h, c) (AddNew E k a (h, c)) \<and>
    (\<exists>b. map_of (snd (AddNew E k a (h, c))) k = Some b \<and>
         b < length (fst (AddNew E k a (h, c))) \<and>
         keys (h ! a) \<subseteq> keys (fst (AddNew E k a (h, c)) ! b))"
proof -
  have w: "wf_cache (h, c)" using assms(1) by (simp add: cache_inv_def)
  let ?xs = "map snd (rangeTasks E (tasks (h ! a)))"
  have ua: "unit_ok T (h ! a)"
    using assms(1,2) by (simp add: cache_inv_def)
  have xs1: "set ?xs \<subseteq> T"
    using ua by (auto simp: unit_ok_def range_tasks_set[OF assms(3)])
  have xs2: "task_Id ` set ?xs = keys (h ! a)"
    using ua by (force simp: unit_ok_def range_tasks_set[OF assms(3)] keys_def)
  show ?thesis
  proof (cases "map_of c k")
    case None
    then have e: "AddNew E k a (h, c) = (h, c @ [(k, a)])"
      by (simp add: AddNew_eq[OF w])
    show ?thesis
      using alias_inv[OF assms(1,2) None] None assms(2) by (simp add: e map_add_def)
  next
    case (Some b)
    then have e: "AddNew E k a (h, c) = (h[b := foldl Add (h ! b) ?xs], c)"
      by (simp add: AddNew_eq[OF w])
    have b: "b < length h"
      using w Some by (simp add: wf_cache_def)
    have ok: "unit_ok T (foldl Add (h ! b) ?xs)"
      using assms(1) b xs1 by (intro unit_ok_foldl_Add) (auto simp: cache_inv_def)
    have "keys (h ! b) \<subseteq> keys (foldl Add (h ! b) ?xs)"
      by auto
    from update_unit_inv[OF assms(1) ok this] show ?thesis
      using Some b xs2 by (auto simp: e)
  qed
qed

lemma AddNew_inv:
  assumes "cache_inv T s" "a < length (fst s)" "range_visits_all E"
  shows "cache_inv T (AddNew E k a s)" "extends s (AddNew E k a s)"
    "\<exists>b. map_of (snd (AddNew E k a s)) k = Some b \<and> b < length (fst (AddNew E k a s)) \<and>
         keys (fst s ! a) \<subseteq> keys (fst (AddNew E k a s) ! b)"
  using AddNew_inv_pair[of T "fst s" "snd s" a E k] assms by simp_all

lemma AddWhen_inv:
  assumes "cache_inv T s" "t \<in> T"
  shows "cache_inv T (AddWhen E cond k t s)" "extends s (AddWhen E cond k t s)"
    "cond \<Longrightarrow> \<exists>a. map_of (snd (AddWhen E cond k t s)) k = Some a \<and>
         a < length (fst (AddWhen E cond k t s)) \<and>
         task_Id t \<in> keys (fst (AddWhen E cond k t s) ! a)"
proof -
  obtain s' a where c: "Create E k t s = (s', a)" by (cases "Create E k t s")
  note i = Create_inv[OF assms c]
  show "cache_inv T (AddWhen E cond k t s)" using i(1) assms(1) by (simp add: AddWhen_eq c)
  show "extends s (AddWhen E cond k t s)" using i(2) by (simp add: AddWhen_eq c)
  show "\<exists>a. map_of (snd (AddWhen E cond k t s)) k = Some a \<and>
         a < length (fst (AddWhen E cond k t s)) \<and>
         task_Id t \<in> keys (fst (AddWhen E cond k t s) ! a)" if cond
    using i(3,4,5) that by (auto simp: AddWhen_eq c)
qed

lemma SetDistro_at_inv:
  assumes "cache_inv T s"
  shows "cache_inv T (SetDistro_at (fst s) a d, snd s)"
    "extends s (SetDistro_at (fst s) a d, snd s)"
proof -
  have "\<forall>u \<in> set (SetDistro_at (fst s) a d). unit_ok T u"
  proof (cases "a < length (fst s)")
    case True
    then show ?thesis
      unfolding SetDistro_at_def using assms
      by (intro ball_list_update) (simp_all add: cache_inv_def unit_ok_SetDistro)
  next
    case False
    then show ?thesis
      using assms by (simp add: SetDistro_at_def cache_inv_def list_update_beyond)
  qed
  then show "cache_inv T (SetDistro_at (fst s) a d, snd s)"
    using assms by (simp add: cache_inv_def wf_cache_def SetDistro_at_def)
  show "extends s (SetDistro_at (fst s) a d, snd s)"
    by (auto simp: extends_def SetDistro_at_def nth_list_update')
qed

lemma group_step_inv:
  assumes "cache_inv T s" "t \<in> T" "range_visits_all E"
  shows "cache_inv T (group_step E d s t)" "extends s (group_step E d s t)"
    "covered (group_step E d s t) t"
proof -
  let ?gv = "ShouldGroupVersions (PlannerSettings d)"
  define k where "k = (if TaskGroup t \<noteq> [] then GetTaskGroupString E t
                       else if ?gv then Version t else task_Id t)"
  obtain s1 a where c: "Create E k t s = (s1, a)" by (cases "Create E k t s")
  note i1 = Create_inv[OF assms(1,2) c]
  define s2 where "s2 = (if TaskGroup t \<noteq> [] \<or> ?gv then AddNew E (task_Id t) a s1 else s1)"
  have i2: "cache_inv T s2" "extends s1 s2"
    using AddNew_inv(1,2)[OF i1(1,3) assms(3)] i1(1) by (simp_all add: s2_def)
  have c2: "covered s2 t"
  proof (cases "TaskGroup t \<noteq> [] \<or> ?gv")
    case True
    then show ?thesis
      using AddNew_inv(3)[OF i1(1,3) assms(3), of "task_Id t"] i1(5)
      by (auto simp: s2_def covered_def)
  next
    case False
    then show ?thesis
      using i1(3,4,5) by (auto simp: s2_def covered_def k_def)
  qed
  define s3 where "s3 = (if TaskGroup t \<noteq> [] then AddWhen E ?gv (Version t) t s2 else s2)"
  have i3: "cache_inv T s3" "extends s2 s3"
    using AddWhen_inv(1,2)[OF i2(1) assms(2)] i2(1) by (simp_all add: s3_def)
  have e: "group_step E d s t = (SetDistro_at (fst s3) a (Some d), snd s3)"
    using c by (simp add: group_step_def s3_def s2_def k_def Let_def split: if_splits)
  note i4 = SetDistro_at_inv[OF i3(1), of a "Some d"]
  show "cache_inv T (group_step E d s t)" using i4(1) by (simp add: e)
  have x: "extends s2 (group_step E d s t)"
    using extends_trans[OF i3(2) i4(2)] by (simp add: e)
  show "extends s (group_step E d s t)"
    using extends_trans[OF i1(2) extends_trans[OF i2(2) x]] .
  show "covered (group_step E d s t) t"
    using covered_extends[OF c2 x] .
qed

subsection \<open>The two loops\<close>

lemma cache_inv_empty: "cache_inv T ([], [])"
  by (simp add: cache_inv_def wf_cache_def)

lemma group_pass_inv_gen:
  assumes "range_visits_all E" "set ts \<subseteq> T" "cache_inv T s"
  shows "cache_inv T (foldl (group_step E d) s ts) \<and> extends s (foldl (group_step E d) s ts) \<and>
         (\<forall>t \<in> set ts. covered (foldl (group_step E d) s ts) t)"
  using assms(2,3)
proof (induction ts arbitrary: s)
  case Nil
  then show ?case by simp
next
  case (Cons t ts)
  have t: "t \<in> T" and ts: "set ts \<subseteq> T" using Cons.prems(1) by auto
  note g = group_step_inv[OF Cons.prems(2) t assms(1), where d=d]
  note ih = Cons.IH[OF ts g(1)]
  show ?case
    using ih g(2,3) by (auto intro: extends_trans covered_extends)
qed

lemma group_pass_inv:
  assumes "range_visits_all E" "set ts \<subseteq> T"
  shows "cache_inv T (group_pass E d ts)" "\<forall>t \<in> set ts. covered (group_pass E d ts) t"
  using group_pass_inv_gen[OF assms cache_inv_empty, where d=d] by (simp_all add: group_pass_def)

lemma dep_step_eq:
  "dep_step E t (h, c) dep =
     (case map_of c dep of None \<Rightarrow> (h, c) | Some a \<Rightarrow> (h[a := Add (h ! a) t], c))"
  by (auto simp: dep_step_def AddWhen_eq Create_eq Exists_def split: option.splits)

lemma dep_step_inv:
  assumes "cache_inv T s" "t \<in> T"
  shows "cache_inv T (dep_step E t s dep)" "extends s (dep_step E t s dep)"
    "snd (dep_step E t s dep) = snd s"
    "\<And>a. map_of (snd s) dep = Some a \<Longrightarrow> task_Id t \<in> keys (fst (dep_step E t s dep) ! a)"
proof -
  obtain h c where s: "s = (h, c)" by (cases s)
  show "snd (dep_step E t s dep) = snd s"
    by (simp add: s dep_step_eq split: option.splits)
  show "cache_inv T (dep_step E t s dep)" "extends s (dep_step E t s dep)"
    using AddWhen_inv(1,2)[OF assms] by (simp_all add: dep_step_def)
  show "task_Id t \<in> keys (fst (dep_step E t s dep) ! a)" if "map_of (snd s) dep = Some a" for a
  proof -
    have "a < length h" using assms(1) that by (simp add: cache_inv_def wf_cache_def s)
    then show ?thesis using that by (simp add: s dep_step_eq)
  qed
qed

lemma depends_loop_inv:
  assumes "cache_inv T s" "t \<in> T"
  shows "cache_inv T (foldl (dep_step E t) s deps) \<and> extends s (foldl (dep_step E t) s deps) \<and>
     snd (foldl (dep_step E t) s deps) = snd s \<and>
     (\<forall>dep \<in> set deps. \<forall>a. map_of (snd s) dep = Some a \<longrightarrow>
          task_Id t \<in> keys (fst (foldl (dep_step E t) s deps) ! a))"
  using assms(1)
proof (induction deps arbitrary: s)
  case Nil
  then show ?case by simp
next
  case (Cons dep deps)
  note i = dep_step_inv[OF Cons.prems assms(2), where E=E and dep=dep]
  note ih = Cons.IH[OF i(1)]
  have w: "\<And>k a. map_of (snd s) k = Some a \<Longrightarrow> a < length (fst s)"
    using Cons.prems by (simp add: cache_inv_def wf_cache_def)
  have "task_Id t \<in> keys (fst (foldl (dep_step E t) (dep_step E t s dep) deps) ! a)"
    if "map_of (snd s) dep = Some a" for a
  proof -
    have "a < length (fst (dep_step E t s dep))"
      using i(2) w[OF that] by (auto simp: extends_def)
    then show ?thesis
      using ih i(4)[OF that] by (auto simp: extends_def)
  qed
  then show ?case
    using ih i(2,3) by (auto intro: extends_trans)
qed

lemma depends_step_inv:
  assumes "cache_inv T s" "t \<in> T"
  shows "cache_inv T (depends_step E s t)" "extends s (depends_step E s t)"
     "snd (depends_step E s t) = snd s"
     "\<forall>dep \<in> set (DependsOn t). \<forall>a. map_of (snd s) dep = Some a \<longrightarrow>
          task_Id t \<in> keys (fst (depends_step E s t) ! a)"
  using depends_loop_inv[OF assms, where E=E and deps="DependsOn t"] by (simp_all add: depends_step_def)

lemma depends_pass_inv:
  assumes "cache_inv T s" "set ts \<subseteq> T"
  shows "cache_inv T (foldl (depends_step E) s ts) \<and> extends s (foldl (depends_step E) s ts) \<and>
     snd (foldl (depends_step E) s ts) = snd s \<and>
     (\<forall>t \<in> set ts. \<forall>dep \<in> set (DependsOn t). \<forall>a. map_of (snd s) dep = Some a \<longrightarrow>
          task_Id t \<in> keys (fst (foldl (depends_step E) s ts) ! a))"
  using assms
proof (induction ts arbitrary: s)
  case Nil
  then show ?case by simp
next
  case (Cons t ts)
  have t: "t \<in> T" and ts: "set ts \<subseteq> T" using Cons.prems(2) by auto
  note i = depends_step_inv[OF Cons.prems(1) t, where E=E]
  note ih = Cons.IH[OF i(1) ts]
  have w: "\<And>k a. map_of (snd s) k = Some a \<Longrightarrow> a < length (fst s)"
    using Cons.prems by (simp add: cache_inv_def wf_cache_def)
  have "task_Id t \<in> keys (fst (foldl (depends_step E) (depends_step E s t) ts) ! a)"
    if "dep \<in> set (DependsOn t)" "map_of (snd s) dep = Some a" for dep a
  proof -
    have "a < length (fst (depends_step E s t))"
      using i(2) w[OF that(2)] by (auto simp: extends_def)
    moreover have "task_Id t \<in> keys (fst (depends_step E s t) ! a)"
      using i(4) that by blast
    ultimately show ?thesis
      using ih by (auto simp: extends_def)
  qed
  then show ?case
    using ih i(2,3) by (auto intro: extends_trans)
qed

lemma assemble_inv:
  assumes "range_visits_all E" "set ts \<subseteq> T"
  shows "cache_inv T (assemble E d ts)" "extends (group_pass E d ts) (assemble E d ts)"
    "snd (assemble E d ts) = snd (group_pass E d ts)"
    "\<forall>t \<in> set ts. covered (assemble E d ts) t"
    "\<forall>t \<in> set ts. \<forall>dep \<in> set (DependsOn t). \<forall>a. map_of (snd (assemble E d ts)) dep = Some a \<longrightarrow>
          task_Id t \<in> keys (fst (assemble E d ts) ! a)"
proof -
  note g = group_pass_inv[OF assms, where d=d]
  note p = depends_pass_inv[OF g(1) assms(2), where E=E]
  show "cache_inv T (assemble E d ts)" "extends (group_pass E d ts) (assemble E d ts)"
    "snd (assemble E d ts) = snd (group_pass E d ts)"
    using p by (simp_all add: assemble_def)
  then show "\<forall>t \<in> set ts. covered (assemble E d ts) t"
    using g(2) covered_extends by blast
  show "\<forall>t \<in> set ts. \<forall>dep \<in> set (DependsOn t). \<forall>a. map_of (snd (assemble E d ts)) dep = Some a \<longrightarrow>
          task_Id t \<in> keys (fst (assemble E d ts) ! a)"
    using p by (simp add: assemble_def)
qed

lemma depends_step_filter:
  "foldl (dep_step E t) s deps = foldl (dep_step E t) s (filter (Exists (snd s)) deps)"
proof (induction deps arbitrary: s)
  case Nil
  then show ?case by simp
next
  case (Cons dep deps)
  obtain h c where s: "s = (h, c)" by (cases s)
  have c: "snd (dep_step E t s dep) = snd s"
    by (simp add: s dep_step_eq split: option.splits)
  have n: "dep_step E t s dep = s" if "\<not> Exists (snd s) dep"
    using that by (simp add: s dep_step_eq Exists_def)
  show ?case
    using Cons.IH[of "dep_step E t s dep"] Cons.IH[of s] c n by auto
qed

text \<open>
  C9. When a task \<open>t\<close> of the batch lists among its dependencies the id of a task \<open>t'\<close>
  of the batch, then after both loops the unit registered under the id of \<open>t'\<close> holds
  \<open>t\<close> and \<open>t'\<close>. The dependency loop of a task does what it does for the
  references that are keys of the cache only: a reference that is no key of the cache
  leaves the cache as it is.
\<close>

theorem dependency_colocated:
  assumes "range_visits_all E" "t \<in> set ts" "t' \<in> set ts" "task_Id t' \<in> set (DependsOn t)"
  shows "(\<exists>a. map_of (snd (assemble E d ts)) (task_Id t') = Some a \<and>
              a < length (fst (assemble E d ts)) \<and>
              task_Id t \<in> keys (fst (assemble E d ts) ! a) \<and>
              task_Id t' \<in> keys (fst (assemble E d ts) ! a)) \<and>
         depends_step E s t = foldl (dep_step E t) s (filter (Exists (snd s)) (DependsOn t))"
proof -
  note i = assemble_inv[OF assms(1) subset_refl, where d=d]
  obtain a where a: "map_of (snd (assemble E d ts)) (task_Id t') = Some a"
      "a < length (fst (assemble E d ts))" "task_Id t' \<in> keys (fst (assemble E d ts) ! a)"
    using i(4) assms(3) by (auto simp: covered_def)
  have "task_Id t \<in> keys (fst (assemble E d ts) ! a)"
    using i(5) assms(2,4) a(1) by blast
  then show ?thesis
    using a depends_step_filter[of E t s "DependsOn t"] by (auto simp: depends_step_def)
qed

subsection \<open>The distro of the units\<close>

lemma group_step_eq:
  assumes "ShouldGroupVersions (PlannerSettings d) \<longrightarrow> TaskGroup t = []"
    and "Create E (primary_key E d t) t s = (s1, a)"
  shows "group_step E d s t =
     (let s2 = (if aliased d t then AddNew E (task_Id t) a s1 else s1)
      in (SetDistro_at (fst s2) a (Some d), snd s2))"
  using assms
  by (auto simp: group_step_def primary_key_def aliased_def Let_def AddWhen_eq split: if_splits)

lemma Create_distro:
  assumes "all_distro d h" "Create E k t (h, c) = (s1, a)" "wf_cache (h, c)"
  shows "a < length (fst s1) \<and> (\<forall>b < length (fst s1). b \<noteq> a \<longrightarrow> distro (fst s1 ! b) = Some d)"
proof (cases "map_of c k")
  case None
  then have e: "s1 = (h @ [NewUnit t], c @ [(k, length h)])" "a = length h"
    using assms(2) by (auto simp: Create_eq)
  show ?thesis
    using assms(1) by (auto simp: e all_distro_def nth_append less_Suc_eq)
next
  case (Some b)
  then have e: "s1 = (h[b := Add (h ! b) t], c)" "a = b"
    using assms(2) by (auto simp: Create_eq)
  have "b < length h" using assms(3) Some by (simp add: wf_cache_def)
  then show ?thesis
    using assms(1) by (auto simp: e all_distro_def nth_list_update')
qed

lemma AddNew_distro:
  assumes "wf_cache s"
  shows "length (fst (AddNew E k a s)) = length (fst s) \<and>
     (\<forall>b < length (fst s). distro (fst (AddNew E k a s) ! b) = distro (fst s ! b))"
proof -
  obtain h c where s: "s = (h, c)" by (cases s)
  show ?thesis
    using assms unfolding s
    by (cases "map_of c k") (auto simp: AddNew_eq nth_list_update')
qed

lemma SetDistro_at_all:
  assumes "a < length h" "\<forall>b < length h. b \<noteq> a \<longrightarrow> distro (h ! b) = Some d"
  shows "all_distro d (SetDistro_at h a (Some d))"
  unfolding all_distro_def
proof
  fix u assume "u \<in> set (SetDistro_at h a (Some d))"
  then obtain b where b: "b < length h" "u = SetDistro_at h a (Some d) ! b"
    by (auto simp: in_set_conv_nth SetDistro_at_def)
  show "distro u = Some d"
    using assms b by (cases "b = a") (simp_all add: SetDistro_at_def SetDistro_def)
qed

lemma group_step_distro:
  assumes "cache_inv T s" "t \<in> T" "all_distro d (fst s)"
    and "ShouldGroupVersions (PlannerSettings d) \<longrightarrow> TaskGroup t = []"
  shows "all_distro d (fst (group_step E d s t))"
proof -
  obtain s1 a where c: "Create E (primary_key E d t) t s = (s1, a)"
    by (cases "Create E (primary_key E d t) t s")
  have w: "wf_cache s" using assms(1) by (simp add: cache_inv_def)
  have c1: "a < length (fst s1)" "\<forall>b < length (fst s1). b \<noteq> a \<longrightarrow> distro (fst s1 ! b) = Some d"
    using Create_distro[of d "fst s" E _ t "snd s" s1 a] assms(3) c w by simp_all
  have w1: "wf_cache s1"
    using Create_inv(1)[OF assms(1,2) c] by (simp add: cache_inv_def)
  define s2 where "s2 = (if aliased d t then AddNew E (task_Id t) a s1 else s1)"
  have c2: "a < length (fst s2)" "\<forall>b < length (fst s2). b \<noteq> a \<longrightarrow> distro (fst s2 ! b) = Some d"
    using c1 AddNew_distro[OF w1, of E "task_Id t" a] by (auto simp: s2_def)
  have "group_step E d s t = (SetDistro_at (fst s2) a (Some d), snd s2)"
    using group_step_eq[OF assms(4) c] by (simp add: s2_def Let_def)
  then show ?thesis
    using SetDistro_at_all[OF c2] by simp
qed

lemma group_pass_distro_gen:
  assumes "range_visits_all E" "set ts \<subseteq> T" "cache_inv T s" "all_distro d (fst s)"
    and "ShouldGroupVersions (PlannerSettings d) \<longrightarrow> (\<forall>t \<in> set ts. TaskGroup t = [])"
  shows "all_distro d (fst (foldl (group_step E d) s ts))"
  using assms(2-5)
proof (induction ts arbitrary: s)
  case Nil
  then show ?case by simp
next
  case (Cons t ts)
  have t: "t \<in> T" and ts: "set ts \<subseteq> T" using Cons.prems(1) by auto
  have g: "ShouldGroupVersions (PlannerSettings d) \<longrightarrow> TaskGroup t = []"
    using Cons.prems(4) by simp
  have "all_distro d (fst (foldl (group_step E d) (group_step E d s t) ts))"
    using Cons.prems(4)
    by (intro Cons.IH[OF ts group_step_inv(1)[OF Cons.prems(2) t assms(1)]
          group_step_distro[OF Cons.prems(2) t Cons.prems(3) g]]) simp
  then show ?case by simp
qed

lemma dep_step_distro:
  assumes "all_distro d (fst s)"
  shows "all_distro d (fst (dep_step E t s dep))"
proof -
  obtain h c where s: "s = (h, c)" by (cases s)
  have "\<forall>u \<in> set (h[a := Add (h ! a) t]). distro u = Some d" if "a < length h" for a
    using assms that by (intro ball_list_update) (simp_all add: s all_distro_def)
  moreover have "h[a := Add (h ! a) t] = h" if "\<not> a < length h" for a
    using that by (simp add: list_update_beyond)
  ultimately have "all_distro d (h[a := Add (h ! a) t])" for a
    using assms by (cases "a < length h") (simp_all add: all_distro_def s)
  then show ?thesis
    using assms by (simp add: s dep_step_eq split: option.splits)
qed

lemma depends_pass_distro:
  assumes "all_distro d (fst s)"
  shows "all_distro d (fst (foldl (depends_step E) s ts))"
  using assms
proof (induction ts arbitrary: s)
  case Nil
  then show ?case by simp
next
  case (Cons t ts)
  have "all_distro d (fst (foldl (dep_step E t) s deps))" if "all_distro d (fst s)" for s deps
    using that by (induction deps arbitrary: s) (simp_all add: dep_step_distro)
  then show ?case
    using Cons by (simp add: depends_step_def)
qed

lemma assemble_distro:
  assumes "range_visits_all E" "no_version_unit d ts"
  shows "all_distro d (fst (assemble E d ts))"
proof -
  have "all_distro d (fst (group_pass E d ts))"
    unfolding group_pass_def
    using assms(2)
    by (intro group_pass_distro_gen[OF assms(1) subset_refl cache_inv_empty])
       (simp_all add: all_distro_def no_version_unit_def)
  then show ?thesis
    by (simp add: assemble_def depends_pass_distro)
qed

text \<open>
  C6. When version grouping is off, or no task of the batch is in a task group, every
  unit registered in the cache after both loops has the distro of the call.
\<close>

theorem assembled_units_have_distro:
  assumes "range_visits_all E"
    and "ShouldGroupVersions (PlannerSettings d) \<longrightarrow> (\<forall>t \<in> set ts. TaskGroup t = [])"
  shows "\<forall>k a. map_of (snd (assemble E d ts)) k = Some a \<longrightarrow>
           a < length (fst (assemble E d ts)) \<and> distro (fst (assemble E d ts) ! a) = Some d"
proof (intro allI impI)
  fix k a
  assume m: "map_of (snd (assemble E d ts)) k = Some a"
  have "cache_inv (set ts) (assemble E d ts)"
    using assemble_inv(1)[OF assms(1) subset_refl] .
  then have a: "a < length (fst (assemble E d ts))"
    using m by (simp add: cache_inv_def wf_cache_def)
  have "all_distro d (fst (assemble E d ts))"
    using assemble_distro[OF assms(1)] assms(2) by (simp add: no_version_unit_def)
  then show "a < length (fst (assemble E d ts)) \<and> distro (fst (assemble E d ts) ! a) = Some d"
    using a by (simp add: all_distro_def)
qed

subsection \<open>The units after the first loop\<close>

lemma AddNew_fresh:
  assumes "wf_cache (h, c)" "map_of c k = None"
  shows "AddNew E k a (h, c) = (h, c @ [(k, a)])"
  using assms by (simp add: AddNew_eq)

lemma disjoint_units_snoc:
  assumes "disjoint_units h" "\<forall>a < length h. keys (h ! a) \<inter> keys u = {}"
  shows "disjoint_units (h @ [u])"
  unfolding disjoint_units_def
proof (intro allI impI)
  fix a b
  assume "a < length (h @ [u])" "b < length (h @ [u])" "a \<noteq> b"
  then consider "a < length h" "b < length h" | "a < length h" "b = length h"
    | "a = length h" "b < length h"
    by (cases "a < length h"; cases "b < length h"; simp; linarith)
  then show "keys ((h @ [u]) ! a) \<inter> keys ((h @ [u]) ! b) = {}"
  proof cases
    case 1
    then show ?thesis using assms(1) \<open>a \<noteq> b\<close> by (simp add: disjoint_units_def nth_append)
  next
    case 2
    then show ?thesis using assms(2) by (simp add: nth_append)
  next
    case 3
    then show ?thesis using assms(2) by (auto simp: nth_append)
  qed
qed

lemma disjoint_units_update:
  assumes "disjoint_units h" "a < length h"
    and "\<forall>b < length h. b \<noteq> a \<longrightarrow> keys (h ! b) \<inter> keys u = {}"
  shows "disjoint_units (h[a := u])"
  unfolding disjoint_units_def
proof (intro allI impI)
  fix x y
  assume xy: "x < length (h[a := u])" "y < length (h[a := u])" "x \<noteq> y"
  show "keys (h[a := u] ! x) \<inter> keys (h[a := u] ! y) = {}"
  proof (cases "x = a")
    case True
    then show ?thesis using xy assms(3) by (auto simp: nth_list_update')
  next
    case False
    note xa = this
    show ?thesis
    proof (cases "y = a")
      case True
      then show ?thesis using xy xa assms(3) by (auto simp: nth_list_update')
    next
      case False
      then show ?thesis using xy xa assms(1) by (simp add: nth_list_update' disjoint_units_def)
    qed
  qed
qed

lemma group_step_disj:
  assumes "disj_inv ids P s" "task_Id t \<in> ids" "task_Id t \<notin> P"
    and "ShouldGroupVersions (PlannerSettings d) \<longrightarrow> TaskGroup t = []"
    and "aliased d t \<longrightarrow> primary_key E d t \<notin> ids"
  shows "disj_inv ids (insert (task_Id t) P) (group_step E d s t)"
proof -
  obtain h c where s: "s = (h, c)" by (cases s)
  let ?k = "primary_key E d t"
  have w: "wf_cache (h, c)" and sub: "\<forall>a < length h. keys (h ! a) \<subseteq> P"
    and dis: "disjoint_units h" and dom: "\<forall>k a. map_of c k = Some a \<longrightarrow> k \<in> P \<or> k \<notin> ids"
    using assms(1) by (simp_all add: disj_inv_def s)
  have fresh: "map_of c (task_Id t) = None"
    using dom assms(2,3) by (cases "map_of c (task_Id t)") auto
  have na: "?k = task_Id t" if "\<not> aliased d t"
    using that by (simp add: primary_key_def aliased_def)
  have kid: "?k \<noteq> task_Id t" if "aliased d t"
    using that assms(2,5) by auto
  have tn: "\<forall>a < length h. task_Id t \<notin> keys (h ! a)"
    using sub assms(3) by blast
  show ?thesis
  proof (cases "map_of c ?k")
    case None
    then have cr: "Create E ?k t s = ((h @ [NewUnit t], c @ [(?k, length h)]), length h)"
      by (simp add: s Create_eq)
    have w1: "wf_cache (h @ [NewUnit t], c @ [(?k, length h)])"
      using wf_cache_snoc[OF w, of "length h" "h @ [NewUnit t]"] by simp
    define c2 where "c2 = (if aliased d t then c @ [(?k, length h)] @ [(task_Id t, length h)]
                           else c @ [(?k, length h)])"
    have f1: "map_of (c @ [(?k, length h)]) (task_Id t) = None" if "aliased d t"
      using fresh kid[OF that] by (simp add: map_add_def)
    have e: "group_step E d s t =
        ((h @ [NewUnit t])[length h := SetDistro ((h @ [NewUnit t]) ! length h) (Some d)], c2)"
      using group_step_eq[OF assms(4) cr] AddNew_fresh[OF w1 f1]
      by (auto simp: Let_def c2_def SetDistro_at_def)
    have hf: "(h @ [NewUnit t])[length h := SetDistro ((h @ [NewUnit t]) ! length h) (Some d)]
        = h @ [SetDistro (NewUnit t) (Some d)]"
      by simp
    have ku: "keys (SetDistro (NewUnit t) (Some d)) = {task_Id t}"
      by (simp add: NewUnit_def keys_def MakeUnit_def Add_def)
    have wf2: "wf_cache (h @ [SetDistro (NewUnit t) (Some d)], c2)"
    proof (cases "aliased d t")
      case True
      have "wf_cache (h @ [SetDistro (NewUnit t) (Some d)], c @ [(?k, length h)])"
        using wf_cache_snoc[OF w, of "length h" "h @ [SetDistro (NewUnit t) (Some d)]"] by simp
      from wf_cache_snoc[OF this, of "length h" "h @ [SetDistro (NewUnit t) (Some d)]" "task_Id t"]
      show ?thesis using True by (simp add: c2_def)
    next
      case False
      then show ?thesis
        using wf_cache_snoc[OF w, of "length h" "h @ [SetDistro (NewUnit t) (Some d)]" ?k]
        by (simp add: c2_def)
    qed
    have sub2: "\<forall>a < length (h @ [SetDistro (NewUnit t) (Some d)]).
        keys ((h @ [SetDistro (NewUnit t) (Some d)]) ! a) \<subseteq> insert (task_Id t) P"
      using sub ku by (auto simp: nth_append less_Suc_eq)
    have dis2: "disjoint_units (h @ [SetDistro (NewUnit t) (Some d)])"
      using tn ku by (intro disjoint_units_snoc[OF dis]) simp
    have dom2: "\<forall>k a. map_of c2 k = Some a \<longrightarrow> k \<in> insert (task_Id t) P \<or> k \<notin> ids"
    proof (intro allI impI)
      fix k a assume m: "map_of c2 k = Some a"
      have "map_of c k = Some a \<or> k = ?k \<or> k = task_Id t"
        using m map_of_snoc_Some[of "c @ [(?k, length h)]" "task_Id t" "length h" k a]
          map_of_snoc_Some[of c ?k "length h" k a]
        by (auto simp: c2_def split: if_splits)
      then show "k \<in> insert (task_Id t) P \<or> k \<notin> ids"
        using dom na assms(5) by (cases "aliased d t") auto
    qed
    show ?thesis
      unfolding e hf using wf2 sub2 dis2 dom2 by (simp add: disj_inv_def)
  next
    case (Some a)
    then have cr: "Create E ?k t s = ((h[a := Add (h ! a) t], c), a)"
      by (simp add: s Create_eq)
    have al: "aliased d t"
      using Some fresh na by (cases "aliased d t") auto
    have a: "a < length h"
      using w Some by (simp add: wf_cache_def)
    have w1: "wf_cache (h[a := Add (h ! a) t], c)"
      using w by (simp add: wf_cache_def)
    have e: "group_step E d s t =
        ((h[a := Add (h ! a) t])[a := SetDistro ((h[a := Add (h ! a) t]) ! a) (Some d)],
         c @ [(task_Id t, a)])"
      using group_step_eq[OF assms(4) cr] AddNew_fresh[OF w1 fresh] al
      by (simp add: Let_def SetDistro_at_def)
    have hf: "(h[a := Add (h ! a) t])[a := SetDistro ((h[a := Add (h ! a) t]) ! a) (Some d)]
        = h[a := SetDistro (Add (h ! a) t) (Some d)]"
      using a by simp
    have ku: "keys (SetDistro (Add (h ! a) t) (Some d)) = insert (task_Id t) (keys (h ! a))"
      by simp
    have wf2: "wf_cache (h[a := SetDistro (Add (h ! a) t) (Some d)], c @ [(task_Id t, a)])"
      using wf_cache_snoc[OF w, of a "h[a := SetDistro (Add (h ! a) t) (Some d)]"] a by simp
    have sub2: "\<forall>b < length (h[a := SetDistro (Add (h ! a) t) (Some d)]).
        keys ((h[a := SetDistro (Add (h ! a) t) (Some d)]) ! b) \<subseteq> insert (task_Id t) P"
      using sub a by (auto simp: nth_list_update')
    have "\<forall>b < length h. b \<noteq> a \<longrightarrow>
        keys (h ! b) \<inter> keys (SetDistro (Add (h ! a) t) (Some d)) = {}"
      using dis tn a by (auto simp: disjoint_units_def)
    then have dis2: "disjoint_units (h[a := SetDistro (Add (h ! a) t) (Some d)])"
      by (intro disjoint_units_update[OF dis a])
    have dom2: "\<forall>k b. map_of (c @ [(task_Id t, a)]) k = Some b \<longrightarrow>
        k \<in> insert (task_Id t) P \<or> k \<notin> ids"
    proof (intro allI impI)
      fix k b assume m: "map_of (c @ [(task_Id t, a)]) k = Some b"
      have "map_of c k = Some b \<or> k = task_Id t"
        using map_of_snoc_Some[OF m] by auto
      then show "k \<in> insert (task_Id t) P \<or> k \<notin> ids"
        using dom by auto
    qed
    show ?thesis
      unfolding e hf using wf2 sub2 dis2 dom2 by (simp add: disj_inv_def)
  qed
qed

lemma group_pass_disj_gen:
  assumes "disj_inv ids P s" "distinct (map task_Id ts)" "task_Id ` set ts \<subseteq> ids"
    and "task_Id ` set ts \<inter> P = {}"
    and "ShouldGroupVersions (PlannerSettings d) \<longrightarrow> (\<forall>t \<in> set ts. TaskGroup t = [])"
    and "\<forall>t \<in> set ts. aliased d t \<longrightarrow> primary_key E d t \<notin> ids"
  shows "disj_inv ids (P \<union> task_Id ` set ts) (foldl (group_step E d) s ts)"
  using assms
proof (induction ts arbitrary: s P)
  case Nil
  then show ?case by simp
next
  case (Cons t ts)
  have g: "disj_inv ids (insert (task_Id t) P) (group_step E d s t)"
    using Cons.prems by (intro group_step_disj) auto
  have "disj_inv ids (insert (task_Id t) P \<union> task_Id ` set ts)
          (foldl (group_step E d) (group_step E d s t) ts)"
    using Cons.prems by (intro Cons.IH[OF g]) auto
  then show ?case by simp
qed

text \<open>
  C2. After the first loop, when the task ids are pairwise distinct, version grouping is
  off or no task is in a task group, and no task-group or version key is the id of a
  task of the batch, two keys of the cache whose units share a task id name one unit.
\<close>

theorem first_pass_units_disjoint:
  assumes "distinct (map task_Id ts)"
    and "ShouldGroupVersions (PlannerSettings d) \<longrightarrow> (\<forall>t \<in> set ts. TaskGroup t = [])"
    and "\<forall>t \<in> set ts. aliased d t \<longrightarrow> primary_key E d t \<notin> task_Id ` set ts"
  shows "\<forall>k1 k2 a1 a2.
           map_of (snd (group_pass E d ts)) k1 = Some a1 \<and>
           map_of (snd (group_pass E d ts)) k2 = Some a2 \<and>
           keys (fst (group_pass E d ts) ! a1) \<inter> keys (fst (group_pass E d ts) ! a2) \<noteq> {}
           \<longrightarrow> a1 = a2"
proof -
  have "disj_inv (task_Id ` set ts) {} ([], [])"
    by (simp add: disj_inv_def wf_cache_def disjoint_units_def)
  from group_pass_disj_gen[OF this assms(1) subset_refl _ assms(2,3)]
  have "disj_inv (task_Id ` set ts) (task_Id ` set ts) (group_pass E d ts)"
    by (simp add: group_pass_def)
  then show ?thesis
    unfolding disj_inv_def wf_cache_def disjoint_units_def by blast
qed

subsection \<open>The cache at concrete inputs\<close>

theorem dependency_colocated_witness:
  "(\<exists>a. map_of (snd (assemble (ex_extern (\<lambda>s. s) (\<lambda>c. c)) (ex_distro False 1)
              [ex_task ''d'' [] ''v'' [], ex_task ''t'' [] ''v'' [''d'', ''x'']])) ''d'' = Some a \<and>
        a < length (fst (assemble (ex_extern (\<lambda>s. s) (\<lambda>c. c)) (ex_distro False 1)
              [ex_task ''d'' [] ''v'' [], ex_task ''t'' [] ''v'' [''d'', ''x'']])) \<and>
        ''t'' \<in> keys (fst (assemble (ex_extern (\<lambda>s. s) (\<lambda>c. c)) (ex_distro False 1)
              [ex_task ''d'' [] ''v'' [], ex_task ''t'' [] ''v'' [''d'', ''x'']]) ! a) \<and>
        ''d'' \<in> keys (fst (assemble (ex_extern (\<lambda>s. s) (\<lambda>c. c)) (ex_distro False 1)
              [ex_task ''d'' [] ''v'' [], ex_task ''t'' [] ''v'' [''d'', ''x'']]) ! a)) \<and>
   depends_step (ex_extern (\<lambda>s. s) (\<lambda>c. c))
       (group_pass (ex_extern (\<lambda>s. s) (\<lambda>c. c)) (ex_distro False 1)
          [ex_task ''d'' [] ''v'' [], ex_task ''t'' [] ''v'' [''d'', ''x'']])
       (ex_task ''t'' [] ''v'' [''d'', ''x'']) =
     foldl (dep_step (ex_extern (\<lambda>s. s) (\<lambda>c. c)) (ex_task ''t'' [] ''v'' [''d'', ''x'']))
       (group_pass (ex_extern (\<lambda>s. s) (\<lambda>c. c)) (ex_distro False 1)
          [ex_task ''d'' [] ''v'' [], ex_task ''t'' [] ''v'' [''d'', ''x'']])
       [''d'']"
proof -
  let ?E = "ex_extern (\<lambda>s. s) (\<lambda>c. c)"
  let ?D = "ex_task ''d'' [] ''v'' []"
  let ?T = "ex_task ''t'' [] ''v'' [''d'', ''x'']"
  have a: "?T \<in> set [?D, ?T]" "?D \<in> set [?D, ?T]" "task_Id ?D \<in> set (DependsOn ?T)"
    by (simp_all add: ex_task_def)
  have f: "filter (Exists (snd (group_pass ?E (ex_distro False 1) [?D, ?T]))) (DependsOn ?T) = [''d'']"
    by (simp add: plan_defs)
  have i: "task_Id ?D = ''d''" "task_Id ?T = ''t''"
    by (simp_all add: ex_task_def)
  show ?thesis
    using dependency_colocated[OF range_visits_all_ex a, of "\<lambda>s. s" "ex_distro False 1"
        "group_pass ?E (ex_distro False 1) [?D, ?T]"]
    unfolding f i by blast
qed

text \<open>As the specification states it, the property fails in its second part: with version grouping the
  reference \<open>v\<close> of the task \<open>t\<close> is the id of no task of the batch, but it is the key of
  the version of the task \<open>a\<close>, and the second loop adds \<open>t\<close> to that unit.\<close>

theorem dependency_colocated_counterexample:
  "''v'' \<notin> task_Id ` set [ex_task ''a'' [] ''v'' [], ex_task ''t'' [] ''w'' [''v'']] \<and>
   keys (fst (group_pass (ex_extern (\<lambda>s. s) (\<lambda>c. c)) (ex_distro True 1)
      [ex_task ''a'' [] ''v'' [], ex_task ''t'' [] ''w'' [''v'']]) ! 0) = {''a''} \<and>
   keys (fst (assemble (ex_extern (\<lambda>s. s) (\<lambda>c. c)) (ex_distro True 1)
      [ex_task ''a'' [] ''v'' [], ex_task ''t'' [] ''w'' [''v'']]) ! 0) = {''a'', ''t''}"
  by (simp add: plan_defs keys_def)

theorem assembled_units_have_distro_witness:
  "map_of (snd (assemble (ex_extern (\<lambda>s. s) (\<lambda>c. c)) (ex_distro False 1)
       [ex_task ''t'' ''g'' ''v'' []])) ''g_v'' = Some 0 \<and>
   0 < length (fst (assemble (ex_extern (\<lambda>s. s) (\<lambda>c. c)) (ex_distro False 1)
       [ex_task ''t'' ''g'' ''v'' []])) \<and>
   distro (fst (assemble (ex_extern (\<lambda>s. s) (\<lambda>c. c)) (ex_distro False 1)
       [ex_task ''t'' ''g'' ''v'' []]) ! 0) = Some (ex_distro False 1)"
proof -
  have g: "ShouldGroupVersions (PlannerSettings (ex_distro False 1)) \<longrightarrow>
      (\<forall>t \<in> set [ex_task ''t'' ''g'' ''v'' []]. TaskGroup t = [])"
    by (simp add: ex_distro_def)
  have m: "map_of (snd (assemble (ex_extern (\<lambda>s. s) (\<lambda>c. c)) (ex_distro False 1)
       [ex_task ''t'' ''g'' ''v'' []])) ''g_v'' = Some 0"
    by (simp add: plan_defs)
  show ?thesis
    using assembled_units_have_distro[OF range_visits_all_ex g, of "\<lambda>s. s"] m by blast
qed

text \<open>As the specification states it, the property fails: with version grouping, the unit that \<^verbatim>\<open>AddWhen\<close>
  creates under the version of a task-group task has no distro after both loops.\<close>

theorem assembled_units_have_distro_counterexample:
  "map_of (snd (assemble (ex_extern (\<lambda>s. s) (\<lambda>c. c)) (ex_distro True 1)
       [ex_task ''t'' ''g'' ''v'' []])) ''v'' = Some 1 \<and>
   distro (fst (assemble (ex_extern (\<lambda>s. s) (\<lambda>c. c)) (ex_distro True 1)
       [ex_task ''t'' ''g'' ''v'' []]) ! 1) = None"
  by (simp add: plan_defs)

theorem first_pass_units_disjoint_witness:
  "the (map_of (snd (group_pass (ex_extern (\<lambda>s. s) (\<lambda>c. c)) (ex_distro False 1)
       [ex_task ''a'' ''g'' ''v'' [], ex_task ''b'' ''g'' ''v'' []])) ''a'') =
   the (map_of (snd (group_pass (ex_extern (\<lambda>s. s) (\<lambda>c. c)) (ex_distro False 1)
       [ex_task ''a'' ''g'' ''v'' [], ex_task ''b'' ''g'' ''v'' []])) ''b'')"
proof -
  let ?E = "ex_extern (\<lambda>s. s) (\<lambda>c. c)"
  let ?ts = "[ex_task ''a'' ''g'' ''v'' [], ex_task ''b'' ''g'' ''v'' []]"
  let ?s = "group_pass ?E (ex_distro False 1) ?ts"
  have h1: "distinct (map task_Id ?ts)"
    by (simp add: ex_task_def)
  have h2: "ShouldGroupVersions (PlannerSettings (ex_distro False 1)) \<longrightarrow>
      (\<forall>t \<in> set ?ts. TaskGroup t = [])"
    by (simp add: ex_distro_def)
  have h3: "\<forall>t \<in> set ?ts. aliased (ex_distro False 1) t \<longrightarrow>
      primary_key ?E (ex_distro False 1) t \<notin> task_Id ` set ?ts"
    by (simp add: ex_task_def ex_extern_def primary_key_def)
  have m: "map_of (snd ?s) ''a'' = Some (the (map_of (snd ?s) ''a''))"
     "map_of (snd ?s) ''b'' = Some (the (map_of (snd ?s) ''b''))"
     "keys (fst ?s ! the (map_of (snd ?s) ''a'')) \<inter> keys (fst ?s ! the (map_of (snd ?s) ''b'')) \<noteq> {}"
    by (simp_all add: plan_defs keys_def)
  show ?thesis
    using first_pass_units_disjoint[OF h1 h2 h3] m by blast
qed

text \<open>As the specification states it, the property fails: the second loop adds the dependent \<open>t\<close> to the
  unit of its dependency \<open>d\<close>, and \<open>t\<close> stays in its own unit.\<close>

theorem first_pass_units_disjoint_counterexample:
  "map_of (snd (assemble (ex_extern (\<lambda>s. s) (\<lambda>c. c)) (ex_distro False 1)
       [ex_task ''d'' [] ''v'' [], ex_task ''t'' [] ''v'' [''d'']])) ''d'' = Some 0 \<and>
   map_of (snd (assemble (ex_extern (\<lambda>s. s) (\<lambda>c. c)) (ex_distro False 1)
       [ex_task ''d'' [] ''v'' [], ex_task ''t'' [] ''v'' [''d'']])) ''t'' = Some 1 \<and>
   keys (fst (assemble (ex_extern (\<lambda>s. s) (\<lambda>c. c)) (ex_distro False 1)
       [ex_task ''d'' [] ''v'' [], ex_task ''t'' [] ''v'' [''d'']]) ! 0) = {''d'', ''t''} \<and>
   keys (fst (assemble (ex_extern (\<lambda>s. s) (\<lambda>c. c)) (ex_distro False 1)
       [ex_task ''d'' [] ''v'' [], ex_task ''t'' [] ''v'' [''d'']]) ! 1) = {''t''}"
  by (simp add: plan_defs keys_def)

subsection \<open>UnitCache.Export\<close>

lemma ID_fields [simp]:
  "tasks (snd (ID E u)) = tasks u" "distro (snd (ID E u)) = distro u"
  "cachedValue (snd (ID E u)) = cachedValue u"
  by (simp_all add: ID_def Let_def)

lemma ID_memo [simp]: "fst (ID E (snd (ID E u))) = fst (ID E u)"
  by (simp add: ID_def Let_def)

lemma same_units_refl [simp]: "same_units E h h"
  by (simp add: same_units_def)




subsection \<open>TaskPlan.Export\<close>

lemma mset_insert_less: "mset (insert_less lt x ys) = add_mset x (mset ys)"
  by (induction ys) simp_all

lemma mset_sort_Sort: "mset (sort_Sort lt xs) = mset xs"
  unfolding sort_Sort_def by (induction xs) (simp_all add: mset_insert_less)

lemma set_sort_Sort [simp]: "set (sort_Sort lt xs) = set xs"
  using mset_sort_Sort[of lt xs] by (metis set_mset_mset)



lemma same_tasks_refl [simp]: "same_tasks h h"
  by (simp add: same_tasks_def)









subsection \<open>The whole pipeline\<close>












end
